theory Spec2Isabelle
  imports Main "HOL-Library.Sublist" "HOL-Library.List_Lexorder"
begin

section \<open>Strings\<close>

text \<open>
  A Python \<open>str\<close> is a sequence of Unicode code points: \<open>len\<close>, slicing,
  \<open>startswith\<close> and the comparison of one-character strings all work on code points.
  A string is therefore a list of code points, each a natural number.
\<close>

type_synonym ustr = "nat list"

definition hash_cp :: nat where
  "hash_cp = 35"

section \<open>Suffix codec (lib/morph\_en.py and lib/morph\_ru.py)\<close>

text \<open>
  \<open>encode_suffix_variants\<close> has the same body in both modules. The loop over
  \<open>forms\<close> adds to the set \<open>encoded\<close>; \<open>encode_step\<close> is one iteration of it,
  with the branches in the order of the source. \<open>form.startswith(lemma)\<close> is
  \<open>prefix lemma form\<close> and \<open>form[len(lemma):]\<close> is \<open>drop (length lemma) form\<close>.
\<close>

definition encode_step :: "ustr \<Rightarrow> bool \<Rightarrow> ustr \<Rightarrow> ustr set \<Rightarrow> ustr set" where
  "encode_step lemma drop_non_prefix form encoded =
     (if form = lemma then insert lemma encoded
      else if prefix lemma form then
        (let suffix = drop (length lemma) form
         in insert (if suffix \<noteq> [] then lemma @ [hash_cp] @ suffix else lemma) encoded)
      else if \<not> drop_non_prefix then insert form encoded
      else encoded)"

definition encode_suffix_variants :: "ustr \<Rightarrow> ustr list \<Rightarrow> bool \<Rightarrow> ustr set" where
  "encode_suffix_variants lemma forms drop_non_prefix =
     fold (encode_step lemma drop_non_prefix) forms {}"

text \<open>
  The codec as the specification words it, one form at a time: the tokens that a
  single form contributes.
\<close>

definition spec_tokens :: "ustr \<Rightarrow> bool \<Rightarrow> ustr \<Rightarrow> ustr set" where
  "spec_tokens lemma drop_non_prefix form =
     (if form = lemma then {lemma}
      else if prefix lemma form then
        (if drop (length lemma) form = [] then {lemma}
         else {lemma @ [hash_cp] @ drop (length lemma) form})
      else if \<not> drop_non_prefix then {form}
      else {})"

text \<open>
  Modelled from the spec: the repository has no decoder; the specification describes
  decoding relative to the lemma of the token: "decoding \<open>lemma#suffix\<close> always
  reconstructs \<open>lemma+suffix\<close>, and a bare lemma reconstructs itself". So
  \<open>decode_token lemma tok\<close> is the token itself when the token is the bare lemma,
  \<open>lemma + suffix\<close> when the token is the lemma, the separator and a suffix, and the
  token itself for a form that was passed through unchanged.
\<close>

definition decode_token :: "ustr \<Rightarrow> ustr \<Rightarrow> ustr" where
  "decode_token lemma tok =
     (if tok = lemma then tok
      else if prefix (lemma @ [hash_cp]) tok then lemma @ drop (length lemma + 1) tok
      else tok)"

definition decode :: "ustr \<Rightarrow> ustr set \<Rightarrow> ustr set" where
  "decode lemma toks = decode_token lemma ` toks"

section \<open>Root selection (prepare\_dataset.py)\<close>

text \<open>
  The source's names start with an underscore (\<open>_dedupe_preserve\<close>,
  \<open>_select_roots\<close>, ...); the underscore is dropped here. \<open>_dedupe_preserve\<close> is
  defined three times in the repository with the same body. \<open>dedupe_loop\<close> is its
  loop, carrying the set \<open>seen\<close> and the list \<open>ordered\<close>.
\<close>

fun dedupe_loop :: "ustr list \<Rightarrow> ustr set \<Rightarrow> ustr list \<Rightarrow> ustr list" where
  "dedupe_loop [] seen ordered = ordered"
| "dedupe_loop (word # words) seen ordered =
     (if word \<in> seen then dedupe_loop words seen ordered
      else dedupe_loop words (insert word seen) (ordered @ [word]))"

definition dedupe_preserve :: "ustr list \<Rightarrow> ustr list" where
  "dedupe_preserve words = dedupe_loop words {} []"

text \<open>
  First-occurrence deduplication as the specification words it: the first element
  is kept and every later copy of it is removed.
\<close>

fun first_occurrences :: "'a list \<Rightarrow> 'a list" where
  "first_occurrences [] = []"
| "first_occurrences (x # xs) = x # first_occurrences (filter (\<lambda>y. y \<noteq> x) xs)"

text \<open>
  The lower-case mapping of one code point in Basic Latin (A-Z to a-z) and in the
  Cyrillic block (U+0400-U+040F to U+0450-U+045F, U+0410-U+042F to U+0430-U+044F).
  \<open>py_lower\<close> leaves every other code point as it is, which \<open>str.lower\<close> does not
  (it maps U+212A to \<open>k\<close>, for one); so \<open>py_lower\<close> stands for \<open>str.lower\<close> only in
  the test of \<open>_select_roots\<close> below, whose outcome is the same with either, and on
  example texts written in Basic Latin and Russian letters.
\<close>

definition py_lower :: "nat \<Rightarrow> nat" where
  "py_lower c =
     (if 65 \<le> c \<and> c \<le> 90 then c + 32
      else if 1024 \<le> c \<and> c \<le> 1039 then c + 80
      else if 1040 \<le> c \<and> c \<le> 1071 then c + 32
      else c)"

text \<open>
  The test of \<open>_select_roots\<close> on one character:
  \<open>"\<dots>" <= ch.lower() <= "\<dots>" or ch.lower() == "\<dots>"\<close> with the letters U+0430,
  U+044F and U+0451.
\<close>

definition is_ru_char :: "nat \<Rightarrow> bool" where
  "is_ru_char ch = ((1072 \<le> py_lower ch \<and> py_lower ch \<le> 1103) \<or> py_lower ch = 1105)"

text \<open>The two language tags, the strings \<open>"en"\<close> and \<open>"ru"\<close> of the source.\<close>

datatype lang = EN | RU

text \<open>
  \<open>combined[:max_roots]\<close> for a Python integer: a negative bound counts from the end
  of the list.
\<close>

definition slice_to :: "'a list \<Rightarrow> int \<Rightarrow> 'a list" where
  "slice_to xs m = (if 0 \<le> m then take (nat m) xs else take (length xs - nat (- m)) xs)"

definition tag_word :: "ustr \<Rightarrow> ustr \<times> lang" where
  "tag_word word = (word, if list_ex is_ru_char word then RU else EN)"

definition select_roots :: "ustr list \<Rightarrow> ustr list \<Rightarrow> int \<Rightarrow> (ustr \<times> lang) list" where
  "select_roots en_roots ru_roots max_roots =
     (let combined = dedupe_preserve (en_roots @ ru_roots);
          selected = slice_to combined max_roots
      in map tag_word selected)"

text \<open>
  A Cyrillic code point in the words of the specification: a code point of the
  Unicode block Cyrillic, U+0400 to U+04FF.
\<close>

definition cyrillic_cp :: "nat \<Rightarrow> bool" where
  "cyrillic_cp c = (1024 \<le> c \<and> c \<le> 1279)"

section \<open>Morphology back ends\<close>

text \<open>
  The lemmatizer (nltk's WordNet), the inflection table (lemminflect) and the
  Russian analyser (pymorphy2) are libraries outside the repository: they are fields
  of an environment. \<open>nltk env = None\<close> is the failed import (then \<open>_LEMMATIZER\<close> is
  \<open>None\<close> as well); \<open>wordnet_found\<close> is whether \<open>nltk.data.find("corpora/wordnet")\<close>
  returns rather than raising \<open>LookupError\<close>. The iteration order of a Python set is
  not fixed by the language: \<open>set_iter\<close> gives the order in which a set is iterated.
  The \<open>lru_cache\<close> decorators memoize pure functions and are not modelled.
\<close>

datatype pos = Noun | Verb | Adj | Adv

record nltk_lib =
  wn_lemmatize :: "ustr \<Rightarrow> pos \<Rightarrow> ustr"
  wordnet_found :: bool

record parse =
  normal_form :: ustr
  lexeme :: "ustr list"

record env =
  nltk :: "nltk_lib option"
  getAllInflections :: "ustr \<Rightarrow> (ustr \<times> ustr list) list"
  morph_parse :: "ustr \<Rightarrow> parse list"
  set_iter :: "ustr set \<Rightarrow> ustr list"

definition wordnet_available :: "env \<Rightarrow> bool" where
  "wordnet_available e = (case nltk e of None \<Rightarrow> False | Some lib \<Rightarrow> wordnet_found lib)"

definition lemmatize_variants :: "env \<Rightarrow> ustr \<Rightarrow> ustr set" where
  "lemmatize_variants e word =
     (case nltk e of
        None \<Rightarrow> {word}
      | Some lib \<Rightarrow>
          if \<not> wordnet_available e then {word}
          else fold (\<lambda>p lemmas.
                       let lemma = wn_lemmatize lib word p
                       in if lemma \<noteq> [] then insert lemma lemmas else lemmas)
                    [Noun, Verb, Adj, Adv] {word})"

definition generate_inflections :: "env \<Rightarrow> ustr \<Rightarrow> ustr set" where
  "generate_inflections e word =
     fold (\<lambda>lemma inflections.
             fold (\<lambda>forms acc. acc \<union> set forms)
                  (map snd (getAllInflections e lemma))
                  (insert lemma inflections))
          (set_iter e (lemmatize_variants e word)) {}"

definition expand_english_word :: "env \<Rightarrow> ustr \<Rightarrow> ustr set" where
  "expand_english_word e word =
     fold (\<lambda>lemma variants.
             let forms = generate_inflections e lemma
             in variants \<union> encode_suffix_variants lemma (set_iter e forms) True)
          (set_iter e (lemmatize_variants e word)) {}"

definition generate_lexeme_forms :: "env \<Rightarrow> ustr \<Rightarrow> ustr \<times> ustr set" where
  "generate_lexeme_forms e word =
     (case morph_parse e word of
        [] \<Rightarrow> (word, {word})
      | best # _ \<Rightarrow>
          let lemma = (if normal_form best \<noteq> [] then normal_form best else word);
              forms = fold (\<lambda>w acc. if w \<noteq> [] then insert w acc else acc)
                           (lexeme best) {lemma}
          in (lemma, forms))"

definition expand_russian_word :: "env \<Rightarrow> ustr \<Rightarrow> ustr set" where
  "expand_russian_word e word =
     (case generate_lexeme_forms e word of
        (lemma, forms) \<Rightarrow> encode_suffix_variants lemma (set_iter e forms) True)"

definition expand :: "env \<Rightarrow> lang \<Rightarrow> ustr \<Rightarrow> ustr set" where
  "expand e l word = (case l of RU \<Rightarrow> expand_russian_word e word
                              | EN \<Rightarrow> expand_english_word e word)"

section \<open>Meaning aggregation (prepare\_dataset.py)\<close>

text \<open>
  \<open>_collect_meanings\<close> owns two dictionaries, \<open>en_cache\<close> and \<open>ru_cache\<close>. The
  field \<open>calls\<close> is not in the source: it records, in order, every call of
  \<open>_expand_english_word\<close> and \<open>_expand_russian_word\<close>, so that the number of calls
  can be stated.
\<close>

record caches =
  en_cache :: "ustr \<rightharpoonup> ustr set"
  ru_cache :: "ustr \<rightharpoonup> ustr set"
  calls :: "(lang \<times> ustr) list"

definition empty_caches :: caches where
  "empty_caches = \<lparr>en_cache = Map.empty, ru_cache = Map.empty, calls = []\<rparr>"

record hanzi_entry =
  hanzi :: ustr
  meanings :: "ustr list"

definition get_or_empty :: "(ustr \<rightharpoonup> ustr list) \<Rightarrow> ustr \<Rightarrow> ustr list" where
  "get_or_empty m k = (case m k of None \<Rightarrow> [] | Some v \<Rightarrow> v)"

definition lookup_variants :: "env \<Rightarrow> ustr \<times> lang \<Rightarrow> caches \<Rightarrow> caches \<times> ustr set" where
  "lookup_variants e root st =
     (case root of
        (word, RU) \<Rightarrow>
          (case ru_cache st word of
             Some variants \<Rightarrow> (st, variants)
           | None \<Rightarrow>
               let variants = expand_russian_word e word
               in (st\<lparr>ru_cache := (ru_cache st)(word \<mapsto> variants),
                      calls := calls st @ [(RU, word)]\<rparr>, variants))
      | (word, EN) \<Rightarrow>
          (case en_cache st word of
             Some variants \<Rightarrow> (st, variants)
           | None \<Rightarrow>
               let variants = expand_english_word e word
               in (st\<lparr>en_cache := (en_cache st)(word \<mapsto> variants),
                      calls := calls st @ [(EN, word)]\<rparr>, variants)))"

text \<open>
  The inner loop over \<open>variants\<close>; \<open>ms\<close> is the list \<open>meanings\<close> of the source
  and \<open>seen\<close> its set \<open>seen_meanings\<close>.
\<close>

fun add_variants :: "ustr list \<Rightarrow> ustr list \<times> ustr set \<Rightarrow> ustr list \<times> ustr set" where
  "add_variants [] (ms, seen) = (ms, seen)"
| "add_variants (variant # rest) (ms, seen) =
     (if variant \<in> seen then add_variants rest (ms, seen)
      else add_variants rest (ms @ [variant], insert variant seen))"

fun roots_loop ::
  "env \<Rightarrow> (ustr \<times> lang) list \<Rightarrow> caches \<Rightarrow> ustr list \<times> ustr set
     \<Rightarrow> caches \<times> ustr list \<times> ustr set" where
  "roots_loop e [] st acc = (st, acc)"
| "roots_loop e (root # roots) st acc =
     (case lookup_variants e root st of
        (st', variants) \<Rightarrow> roots_loop e roots st' (add_variants (set_iter e variants) acc))"

fun hanzi_loop ::
  "env \<Rightarrow> (ustr \<rightharpoonup> ustr list) \<Rightarrow> (ustr \<rightharpoonup> ustr list) \<Rightarrow> ustr list
     \<Rightarrow> caches \<Rightarrow> hanzi_entry list \<Rightarrow> caches \<times> hanzi_entry list" where
  "hanzi_loop e en_map ru_map [] st dataset = (st, dataset)"
| "hanzi_loop e en_map ru_map (h # hs) st dataset =
     (let selected_roots = select_roots (get_or_empty en_map h) (get_or_empty ru_map h) 3
      in case roots_loop e selected_roots st ([], {}) of
           (st', ms, seen) \<Rightarrow>
             hanzi_loop e en_map ru_map hs st'
               (dataset @ [\<lparr>hanzi = h, meanings = ms\<rparr>]))"

definition collect_meanings_run ::
  "env \<Rightarrow> ustr list \<Rightarrow> (ustr \<rightharpoonup> ustr list) \<Rightarrow> (ustr \<rightharpoonup> ustr list)
     \<Rightarrow> caches \<times> hanzi_entry list" where
  "collect_meanings_run e hanzi_list en_map ru_map =
     hanzi_loop e en_map ru_map hanzi_list empty_caches []"

definition collect_meanings ::
  "env \<Rightarrow> ustr list \<Rightarrow> (ustr \<rightharpoonup> ustr list) \<Rightarrow> (ustr \<rightharpoonup> ustr list) \<Rightarrow> hanzi_entry list" where
  "collect_meanings e hanzi_list en_map ru_map =
     snd (collect_meanings_run e hanzi_list en_map ru_map)"

text \<open>
  The meaning sequence as the specification words it: the first-occurrence
  deduplication of the concatenated variant sets of the selected roots, in root
  order, each set in its iteration order. No cache is involved: the expansion is
  computed at every request.
\<close>

definition spec_meanings :: "env \<Rightarrow> (ustr \<times> lang) list \<Rightarrow> ustr list" where
  "spec_meanings e roots =
     first_occurrences (concat (map (\<lambda>(word, l). set_iter e (expand e l word)) roots))"

definition unmemoized_dataset ::
  "env \<Rightarrow> ustr list \<Rightarrow> (ustr \<rightharpoonup> ustr list) \<Rightarrow> (ustr \<rightharpoonup> ustr list) \<Rightarrow> hanzi_entry list" where
  "unmemoized_dataset e hanzi_list en_map ru_map =
     map (\<lambda>h. \<lparr>hanzi = h,
                meanings = spec_meanings e
                  (select_roots (get_or_empty en_map h) (get_or_empty ru_map h) 3)\<rparr>)
         hanzi_list"

section \<open>Chunk files (prepare\_dataset.py)\<close>

definition u_of :: "string \<Rightarrow> ustr" where
  "u_of s = map of_char s"

text \<open>
  The format \<open>{list_number:03d}\<close>: the decimal digits of the number, padded with
  zeros on the left to at least three characters.
\<close>

fun decimal :: "nat \<Rightarrow> ustr" where
  "decimal n = (if n < 10 then [48 + n] else decimal (n div 10) @ [48 + n mod 10])"

definition format_03d :: "nat \<Rightarrow> ustr" where
  "format_03d n = replicate (3 - length (decimal n)) 48 @ decimal n"

definition list_filename :: "nat \<Rightarrow> ustr" where
  "list_filename list_number = u_of ''list_'' @ format_03d list_number @ u_of ''.json''"

text \<open>
  The number that a string of decimal digits denotes (what \<open>int\<close> gives for it).
\<close>

definition digits_value :: "ustr \<Rightarrow> nat" where
  "digits_value ds = foldl (\<lambda>a c. 10 * a + (c - 48)) 0 ds"

text \<open>
  \<open>_write_lists\<close> writes one file per chunk below \<open>out_dir\<close>. The model returns the
  writes in the order in which they are made, each as the file name and the chunk
  written to it. \<open>write_lists_from\<close> is the loop \<open>for idx in range(0, len(dataset),
  chunk_size)\<close> from the index \<open>idx\<close> on.
\<close>

definition chunk_size :: nat where
  "chunk_size = 100"

function write_lists_from :: "nat \<Rightarrow> 'a list \<Rightarrow> (ustr \<times> 'a list) list" where
  "write_lists_from idx dataset =
     (if idx < length dataset
      then (list_filename (idx div chunk_size + 1), take chunk_size (drop idx dataset))
             # write_lists_from (idx + chunk_size) dataset
      else [])"
  by pat_completeness auto
termination
  by (relation "measure (\<lambda>(idx, dataset). length dataset - idx)") (auto simp: chunk_size_def)

definition write_lists :: "'a list \<Rightarrow> (ustr \<times> 'a list) list" where
  "write_lists dataset = write_lists_from 0 dataset"

section \<open>Candidate extraction (lib/parse\_unihan.py, lib/parse\_bkrs.py)\<close>

text \<open>
  \<open>re.sub\<close> with a pattern of the shape \<open>\<open>opn[^cls]*cls\<close>\<close> and the replacement
  \<open>" "\<close>: scanning from the left, an opening character that has a closing character
  somewhere after it is replaced, together with everything up to and including the
  first such closing character, by one space; the scan goes on behind it.
\<close>

function strip_segments :: "nat \<Rightarrow> nat \<Rightarrow> ustr \<Rightarrow> ustr" where
  "strip_segments opn cls [] = []"
| "strip_segments opn cls (c # cs) =
     (if c = opn \<and> cls \<in> set cs
      then 32 # strip_segments opn cls (tl (dropWhile (\<lambda>x. x \<noteq> cls) cs))
      else c # strip_segments opn cls cs)"
  by pat_completeness auto
termination
  by (relation "measure (\<lambda>(opn, cls, s). length s)")
     (auto simp: less_Suc_eq_le intro: le_trans [OF diff_le_self length_dropWhile_le])








section \<open>Auxiliary notions for the proofs\<close>

text \<open>
  The invariant of the two caches during \<open>_collect_meanings\<close>: a cached value is the
  expansion of its key, no call is recorded twice, and the recorded calls are exactly
  the keys of the caches.
\<close>

definition cache_inv :: "env \<Rightarrow> caches \<Rightarrow> bool" where
  "cache_inv e st =
     ((\<forall>w v. en_cache st w = Some v \<longrightarrow> v = expand_english_word e w)
    \<and> (\<forall>w v. ru_cache st w = Some v \<longrightarrow> v = expand_russian_word e w)
    \<and> distinct (calls st)
    \<and> (\<forall>w. (EN, w) \<in> set (calls st) \<longleftrightarrow> en_cache st w \<noteq> None)
    \<and> (\<forall>w. (RU, w) \<in> set (calls st) \<longleftrightarrow> ru_cache st w \<noteq> None))"

text \<open>
  The variants of a list of roots in the order in which the inner loops of
  \<open>_collect_meanings\<close> visit them.
\<close>

definition root_variants :: "env \<Rightarrow> (ustr \<times> lang) list \<Rightarrow> ustr list" where
  "root_variants e roots = concat (map (\<lambda>(word, l). set_iter e (expand e l word)) roots)"

text \<open>
  Iterating over a Python set visits exactly the elements of the set. \<open>iter_ok\<close>
  states this of the iteration order of an environment.
\<close>

definition iter_ok :: "env \<Rightarrow> bool" where
  "iter_ok e = (\<forall>S. finite S \<longrightarrow> set (set_iter e S) = S)"

text \<open>
  The forms in the values of the dictionary \<open>getAllInflections(lemma)\<close>.
\<close>

definition inflections_of :: "env \<Rightarrow> ustr \<Rightarrow> ustr set" where
  "inflections_of e lemma = \<Union> (set ` snd ` set (getAllInflections e lemma))"

text \<open>
  A small deterministic environment for examples: no lemmatizer, one inflection
  (the suffix \<open>ing\<close>) per word, no Russian parse, and sets iterated in sorted order.
\<close>

definition example_env :: env where
  "example_env =
     \<lparr>nltk = None,
      getAllInflections = (\<lambda>w. [(u_of ''VBG'', [w @ u_of ''ing''])]),
      morph_parse = (\<lambda>w. []),
      set_iter = sorted_list_of_set\<rparr>"


section \<open>Properties of the suffix codec\<close>

lemma encode_step_union:
  "encode_step l d f acc = acc \<union> spec_tokens l d f"
  by (auto simp: encode_step_def spec_tokens_def Let_def)

lemma fold_encode_step:
  "fold (encode_step l d) fs acc = acc \<union> (\<Union>f\<in>set fs. spec_tokens l d f)"
  by (induction fs arbitrary: acc) (auto simp: encode_step_union)

lemma encode_as_union:
  "encode_suffix_variants l fs d = (\<Union>f\<in>set fs. spec_tokens l d f)"
  by (simp add: encode_suffix_variants_def fold_encode_step)

lemma u_of_simps: "u_of [] = []" "u_of (c # s) = of_char c # u_of s"
  by (simp_all add: u_of_def)

text \<open>
  Claim C2. For every lemma, every list of forms and every value of
  \<open>drop_non_prefix\<close>, the encoder emits exactly the tokens the specification gives
  for each form: the bare lemma for a form equal to the lemma, \<open>lemma#suffix\<close> (or the
  bare lemma when the suffix is empty) for a form with the lemma as a prefix, the form
  itself for another form when \<open>drop_non_prefix\<close> is false, and nothing for it when
  \<open>drop_non_prefix\<close> is true. The result is a set that depends only on the set of
  the forms, not on their order.
\<close>

theorem encode_suffix_variants_spec:
  "encode_suffix_variants l fs d = (\<Union>f\<in>set fs. spec_tokens l d f)
   \<and> (\<forall>gs. set gs = set fs \<longrightarrow> encode_suffix_variants l gs d = encode_suffix_variants l fs d)"
  by (simp add: encode_as_union)

theorem encode_suffix_variants_spec_witness:
  "set [u_of ''ran'', u_of ''runs'', u_of ''run''] = set [u_of ''run'', u_of ''runs'', u_of ''ran'']
   \<and> encode_suffix_variants (u_of ''run'') [u_of ''ran'', u_of ''runs'', u_of ''run''] False
     = encode_suffix_variants (u_of ''run'') [u_of ''run'', u_of ''runs'', u_of ''ran''] False
   \<and> encode_suffix_variants (u_of ''run'') [u_of ''run'', u_of ''runs'', u_of ''ran''] False
     = \<Union> (spec_tokens (u_of ''run'') False ` set [u_of ''run'', u_of ''runs'', u_of ''ran''])"
proof -
  have s: "set [u_of ''ran'', u_of ''runs'', u_of ''run''] = set [u_of ''run'', u_of ''runs'', u_of ''ran'']"
    by (simp add: insert_commute)
  show ?thesis
    using s encode_suffix_variants_spec [of "u_of ''run''" "[u_of ''run'', u_of ''runs'', u_of ''ran'']" False]
    by blast
qed

lemma decode_token_bare: "decode_token l l = l"
  by (simp add: decode_token_def)

lemma decode_token_suffix: "decode_token l (l @ [hash_cp] @ s) = l @ s"
  by (simp add: decode_token_def)

text \<open>
  Claim C4. For every lemma \<open>L\<close>, every form \<open>F\<close> that starts with \<open>L\<close> and every
  value of \<open>drop_non_prefix\<close>, \<open>encode(L, [F])\<close> is a single token, and decoding it
  relative to \<open>L\<close> (concatenating lemma and suffix when the token is \<open>L#suffix\<close>,
  taking the token itself when it is the bare lemma) gives exactly \<open>{F}\<close>. Neither
  the lemma nor the suffix is restricted: both may contain the separator.
\<close>

theorem decode_encode_roundtrip:
  "prefix l f \<Longrightarrow>
     (\<exists>tok. encode_suffix_variants l [f] d = {tok})
   \<and> decode l (encode_suffix_variants l [f] d) = {f}"
proof -
  assume p: "prefix l f"
  from p obtain s where f: "f = l @ s" by (auto simp: prefix_def)
  have enc: "encode_suffix_variants l [f] d = (if s = [] then {l} else {l @ [hash_cp] @ s})"
    by (simp add: encode_as_union spec_tokens_def f)
  have "decode l (encode_suffix_variants l [f] d) = {f}"
    unfolding enc decode_def using decode_token_bare [of l] decode_token_suffix [of l s]
    by (simp add: f)
  moreover have "\<exists>tok. encode_suffix_variants l [f] d = {tok}"
    unfolding enc by simp
  ultimately show ?thesis by blast
qed

theorem decode_encode_roundtrip_witness:
  "prefix (u_of ''a#b'') (u_of ''a#b#c'')
   \<and> encode_suffix_variants (u_of ''a#b'') [u_of ''a#b#c''] True = {u_of ''a#b##c''}
   \<and> decode (u_of ''a#b'') (encode_suffix_variants (u_of ''a#b'') [u_of ''a#b#c''] True)
       = {u_of ''a#b#c''}"
proof -
  have p: "prefix (u_of ''a#b'') (u_of ''a#b#c'')" by (simp add: u_of_simps)
  have e: "encode_suffix_variants (u_of ''a#b'') [u_of ''a#b#c''] True = {u_of ''a#b##c''}"
    by (simp add: encode_suffix_variants_def encode_step_def u_of_simps hash_cp_def)
  show ?thesis using p e decode_encode_roundtrip [OF p, of True] by blast
qed

section \<open>Properties of the root selection\<close>

lemma set_first_occurrences [simp]: "set (first_occurrences xs) = set xs"
  by (induction xs rule: first_occurrences.induct) auto

lemma distinct_first_occurrences [simp]: "distinct (first_occurrences xs)"
  by (induction xs rule: first_occurrences.induct) auto

lemma dedupe_loop_first_occurrences:
  "dedupe_loop ws seen ordered = ordered @ first_occurrences (filter (\<lambda>w. w \<notin> seen) ws)"
proof (induction ws arbitrary: seen ordered)
  case Nil
  then show ?case by simp
next
  case (Cons w ws)
  have eq: "filter (\<lambda>y. y \<noteq> w \<and> y \<notin> seen) ws = filter (\<lambda>y. y \<notin> seen \<and> y \<noteq> w) ws"
    by (rule filter_cong) auto
  show ?case by (simp add: Cons.IH eq)
qed

lemma dedupe_preserve_first_occurrences:
  "dedupe_preserve ws = first_occurrences ws"
  by (simp add: dedupe_preserve_def dedupe_loop_first_occurrences)

lemma map_fst_tag_word: "map (fst \<circ> tag_word) ws = ws"
  by (induction ws) (simp_all add: tag_word_def)

text \<open>
  Claim C3, amended: for all candidate lists and every non-negative \<open>maxRoots\<close>,
  the selected words are the first-occurrence deduplication of the primary candidates
  followed by the secondary candidates, cut to its first \<open>maxRoots\<close> entries, each
  word with its tag; the result has at most \<open>maxRoots\<close> entries and its words are
  distinct. \<open>select_roots\<close> is a function of its three arguments alone, so the same
  inputs give the same sequence and tags.
\<close>

theorem select_roots_spec:
  "0 \<le> m \<Longrightarrow>
     select_roots en ru m = map tag_word (take (nat m) (first_occurrences (en @ ru)))
   \<and> map fst (select_roots en ru m) = take (nat m) (first_occurrences (en @ ru))
   \<and> int (length (select_roots en ru m)) \<le> m
   \<and> distinct (map fst (select_roots en ru m))"
  by (simp add: select_roots_def slice_to_def dedupe_preserve_first_occurrences
        map_fst_tag_word distinct_take)

theorem select_roots_spec_witness:
  "(0::int) \<le> 3
   \<and> select_roots [u_of ''study'', u_of ''learn''] [u_of ''learn'', u_of ''school'', u_of ''science''] 3
       = [(u_of ''study'', EN), (u_of ''learn'', EN), (u_of ''school'', EN)]
   \<and> int (length (select_roots [u_of ''study'', u_of ''learn'']
                     [u_of ''learn'', u_of ''school'', u_of ''science''] 3)) \<le> 3
   \<and> distinct (map fst (select_roots [u_of ''study'', u_of ''learn'']
                     [u_of ''learn'', u_of ''school'', u_of ''science''] 3))"
proof -
  have h: "(0::int) \<le> 3" by simp
  have r: "select_roots [u_of ''study'', u_of ''learn''] [u_of ''learn'', u_of ''school'', u_of ''science''] 3
       = [(u_of ''study'', EN), (u_of ''learn'', EN), (u_of ''school'', EN)]"
    by (simp add: select_roots_def slice_to_def dedupe_preserve_def u_of_simps tag_word_def
          is_ru_char_def py_lower_def)
  from h r select_roots_spec [OF h, of "[u_of ''study'', u_of ''learn'']"
      "[u_of ''learn'', u_of ''school'', u_of ''science'']"]
  show ?thesis by blast
qed

text \<open>
  Claim C3, as stated: for every \<open>maxRoots\<close> the result has at most \<open>maxRoots\<close>
  entries. \<open>max_roots\<close> is a Python integer and the truncation is the slice
  \<open>combined[:max_roots]\<close>: with \<open>max_roots = -1\<close> the slice drops the last word only,
  and the result has one entry, which is more than \<open>-1\<close>.
\<close>

theorem select_roots_negative_counterexample:
  "select_roots [u_of ''a'', u_of ''b''] [] (- 1) = [(u_of ''a'', EN)]
   \<and> \<not> int (length (select_roots [u_of ''a'', u_of ''b''] [] (- 1))) \<le> - 1"
  by (simp add: select_roots_def slice_to_def dedupe_preserve_def u_of_simps tag_word_def
        is_ru_char_def py_lower_def)

lemma is_ru_char_iff:
  "is_ru_char c \<longleftrightarrow> (1040 \<le> c \<and> c \<le> 1103) \<or> c = 1025 \<or> c = 1105"
  unfolding is_ru_char_def py_lower_def by (auto split: if_splits)

lemma tag_in_select_roots:
  "(w, t) \<in> set (select_roots en ru m) \<Longrightarrow> t = (if list_ex is_ru_char w then RU else EN)"
  by (auto simp: select_roots_def tag_word_def)

text \<open>
  Claim C5, amended: a selected word is tagged \<open>ru\<close> if and only if it contains a
  letter of the Russian alphabet in either case, that is a code point in
  U+0410-U+044F, U+0401 or U+0451; otherwise it is tagged \<open>en\<close>. In particular a
  word without any code point of the Cyrillic block is tagged \<open>en\<close>.
\<close>

theorem tag_spec:
  "(w, t) \<in> set (select_roots en ru m) \<Longrightarrow>
     (t = RU \<longleftrightarrow> (\<exists>c\<in>set w. (1040 \<le> c \<and> c \<le> 1103) \<or> c = 1025 \<or> c = 1105))
   \<and> (t = EN \<longleftrightarrow> \<not> (\<exists>c\<in>set w. (1040 \<le> c \<and> c \<le> 1103) \<or> c = 1025 \<or> c = 1105))
   \<and> ((\<forall>c\<in>set w. \<not> cyrillic_cp c) \<longrightarrow> t = EN)"
proof -
  assume "(w, t) \<in> set (select_roots en ru m)"
  then have t: "t = (if list_ex is_ru_char w then RU else EN)"
    by (rule tag_in_select_roots)
  have ex: "list_ex is_ru_char w \<longleftrightarrow> (\<exists>c\<in>set w. (1040 \<le> c \<and> c \<le> 1103) \<or> c = 1025 \<or> c = 1105)"
    by (simp add: list_ex_iff is_ru_char_iff)
  have cyr: "c \<in> set w \<Longrightarrow> (1040 \<le> c \<and> c \<le> 1103) \<or> c = 1025 \<or> c = 1105 \<Longrightarrow> cyrillic_cp c" for c
    by (auto simp: cyrillic_cp_def)
  have a: "t = RU \<longleftrightarrow> (\<exists>c\<in>set w. (1040 \<le> c \<and> c \<le> 1103) \<or> c = 1025 \<or> c = 1105)"
    using t ex by simp
  have b: "t = EN \<longleftrightarrow> \<not> (\<exists>c\<in>set w. (1040 \<le> c \<and> c \<le> 1103) \<or> c = 1025 \<or> c = 1105)"
    using t ex by simp
  have c: "(\<forall>c\<in>set w. \<not> cyrillic_cp c) \<longrightarrow> t = EN"
    using b cyr by blast
  from a b c show ?thesis by blast
qed

text \<open>
  Claim C5, as stated: a selected word is tagged as secondary language if and only if
  it contains a Cyrillic letter. The test of the source is the range U+0430-U+044F of
  the lower-cased character, or U+0451: the Ukrainian word of two letters U+0457 is
  made of Cyrillic letters and is tagged \<open>en\<close>.
\<close>

theorem tag_counterexample:
  "cyrillic_cp 1111 \<and> select_roots [] [[1111, 1111]] 3 = [([1111, 1111], EN)]"
  by (simp add: select_roots_def slice_to_def dedupe_preserve_def tag_word_def
        is_ru_char_def py_lower_def cyrillic_cp_def)

theorem tag_spec_witness:
  "([1084, 1080, 1088], RU) \<in> set (select_roots [] [[1084, 1080, 1088]] 3)
   \<and> (\<exists>c\<in>set [1084, 1080, 1088::nat]. (1040 \<le> c \<and> c \<le> 1103) \<or> c = 1025 \<or> c = 1105)
   \<and> (u_of ''world'', EN) \<in> set (select_roots [u_of ''world''] [] 3)
   \<and> \<not> (\<exists>c\<in>set (u_of ''world''). cyrillic_cp c)"
proof -
  have a: "([1084, 1080, 1088], RU) \<in> set (select_roots [] [[1084, 1080, 1088]] 3)"
    by (simp add: select_roots_def slice_to_def dedupe_preserve_def tag_word_def
        is_ru_char_def py_lower_def)
  have b: "(u_of ''world'', EN) \<in> set (select_roots [u_of ''world''] [] 3)"
    by (simp add: select_roots_def slice_to_def dedupe_preserve_def tag_word_def
        is_ru_char_def py_lower_def u_of_simps)
  have c: "\<forall>c\<in>set (u_of ''world''). \<not> cyrillic_cp c"
    by (simp add: u_of_simps cyrillic_cp_def)
  from tag_spec [OF a] tag_spec [OF b] a b c show ?thesis by blast
qed

section \<open>Properties of the meaning aggregation\<close>

lemma cache_inv_empty: "cache_inv e empty_caches"
  by (simp add: cache_inv_def empty_caches_def)

lemma lookup_variants_inv:
  assumes "cache_inv e st"
  shows "snd (lookup_variants e (w, l) st) = expand e l w"
    and "cache_inv e (fst (lookup_variants e (w, l) st))"
proof -
  show "snd (lookup_variants e (w, l) st) = expand e l w"
    using assms
    by (cases l) (auto simp: lookup_variants_def expand_def cache_inv_def Let_def split: option.splits)
  show "cache_inv e (fst (lookup_variants e (w, l) st))"
  proof (cases l)
    case EN
    show ?thesis
    proof (cases "en_cache st w")
      case None
      then show ?thesis using assms EN
        unfolding cache_inv_def lookup_variants_def by (auto simp: Let_def)
    next
      case (Some v)
      then show ?thesis using assms EN by (simp add: lookup_variants_def)
    qed
  next
    case RU
    show ?thesis
    proof (cases "ru_cache st w")
      case None
      then show ?thesis using assms RU
        unfolding cache_inv_def lookup_variants_def by (auto simp: Let_def)
    next
      case (Some v)
      then show ?thesis using assms RU by (simp add: lookup_variants_def)
    qed
  qed
qed

lemma filter2_eq:
  assumes "\<And>x. x \<in> set xs \<Longrightarrow> (Q x \<and> P x) = R x"
  shows "filter P (filter Q xs) = filter R xs"
  using assms by (induction xs) auto

lemma first_occurrences_filter:
  "first_occurrences (filter P xs) = filter P (first_occurrences xs)"
proof (induction xs rule: first_occurrences.induct)
  case 1
  then show ?case by simp
next
  case (2 x xs)
  have comm: "filter (\<lambda>y. y \<noteq> x) (filter P xs) = filter P (filter (\<lambda>y. y \<noteq> x) xs)"
    by (induction xs) auto
  show ?case
  proof (cases "P x")
    case True
    then show ?thesis using 2 comm by (simp del: filter_filter)
  next
    case False
    have "filter P (filter (\<lambda>y. y \<noteq> x) xs) = filter P xs"
      using False by (intro filter2_eq) auto
    then show ?thesis using False 2 by (simp del: filter_filter)
  qed
qed

lemma first_occurrences_append:
  "first_occurrences (xs @ ys)
     = first_occurrences xs @ filter (\<lambda>y. y \<notin> set xs) (first_occurrences ys)"
proof (induction xs arbitrary: ys rule: first_occurrences.induct)
  case 1
  then show ?case by simp
next
  case (2 x xs)
  let ?N = "\<lambda>y. y \<noteq> x"
  have "first_occurrences ((x # xs) @ ys) = x # first_occurrences (filter ?N xs @ filter ?N ys)"
    by simp
  also have "first_occurrences (filter ?N xs @ filter ?N ys)
      = first_occurrences (filter ?N xs)
        @ filter (\<lambda>y. y \<notin> set (filter ?N xs)) (first_occurrences (filter ?N ys))"
    by (rule 2)
  also have "filter (\<lambda>y. y \<notin> set (filter ?N xs)) (first_occurrences (filter ?N ys))
      = filter (\<lambda>y. y \<notin> set (filter ?N xs)) (filter ?N (first_occurrences ys))"
    by (simp only: first_occurrences_filter)
  also have "\<dots> = filter (\<lambda>y. y \<notin> set (x # xs)) (first_occurrences ys)"
    by (intro filter2_eq) auto
  finally show ?case by simp
qed

lemma add_variants_spec:
  "add_variants vs (ms, seen)
     = (ms @ filter (\<lambda>v. v \<notin> seen) (first_occurrences vs), seen \<union> set vs)"
proof (induction vs arbitrary: ms seen)
  case Nil
  then show ?case by simp
next
  case (Cons v vs)
  have fo: "first_occurrences (filter (\<lambda>y. y \<noteq> v) vs) = filter (\<lambda>y. y \<noteq> v) (first_occurrences vs)"
    by (rule first_occurrences_filter)
  show ?case
  proof (cases "v \<in> seen")
    case True
    have "filter (\<lambda>y. y \<notin> seen) (filter (\<lambda>y. y \<noteq> v) (first_occurrences vs))
          = filter (\<lambda>y. y \<notin> seen) (first_occurrences vs)"
      using True by (intro filter2_eq) auto
    then show ?thesis using True by (simp add: Cons.IH fo insert_absorb del: filter_filter)
  next
    case False
    have "filter (\<lambda>y. y \<notin> seen) (filter (\<lambda>y. y \<noteq> v) (first_occurrences vs))
          = filter (\<lambda>y. y \<notin> insert v seen) (first_occurrences vs)"
      by (intro filter2_eq) auto
    then show ?thesis using False by (simp add: Cons.IH fo del: filter_filter)
  qed
qed

lemma roots_loop_spec:
  "cache_inv e st \<Longrightarrow>
     cache_inv e (fst (roots_loop e roots st (ms, seen)))
   \<and> snd (roots_loop e roots st (ms, seen))
       = (ms @ filter (\<lambda>v. v \<notin> seen) (first_occurrences (root_variants e roots)),
          seen \<union> set (root_variants e roots))"
proof (induction roots arbitrary: st ms seen)
  case Nil
  then show ?case by (simp add: root_variants_def)
next
  case (Cons root roots)
  obtain w l where root: "root = (w, l)" by (cases root)
  obtain st' v where lk: "lookup_variants e (w, l) st = (st', v)" by (cases "lookup_variants e (w, l) st")
  from lookup_variants_inv [OF Cons.prems, of w l] lk
  have v: "v = expand e l w" and inv': "cache_inv e st'" by simp_all
  let ?V = "set_iter e v"
  let ?R = "root_variants e roots"
  have step: "roots_loop e (root # roots) st (ms, seen)
      = roots_loop e roots st' (ms @ filter (\<lambda>v. v \<notin> seen) (first_occurrences ?V), seen \<union> set ?V)"
    by (simp add: root lk add_variants_spec)
  have rv: "root_variants e (root # roots) = ?V @ ?R"
    by (simp add: root_variants_def root v)
  have f: "filter (\<lambda>v. v \<notin> seen) (filter (\<lambda>y. y \<notin> set ?V) (first_occurrences ?R))
         = filter (\<lambda>v. v \<notin> seen \<union> set ?V) (first_occurrences ?R)"
    by (intro filter2_eq) auto
  have "filter (\<lambda>v. v \<notin> seen) (first_occurrences (?V @ ?R))
      = filter (\<lambda>v. v \<notin> seen) (first_occurrences ?V)
        @ filter (\<lambda>v. v \<notin> seen \<union> set ?V) (first_occurrences ?R)"
    by (simp only: first_occurrences_append filter_append f)
  then show ?case
    unfolding step rv using Cons.IH [OF inv']
    by (simp add: Un_assoc del: filter_filter)
qed

lemma hanzi_loop_spec:
  "cache_inv e st \<Longrightarrow>
     cache_inv e (fst (hanzi_loop e en ru hs st ds))
   \<and> snd (hanzi_loop e en ru hs st ds)
       = ds @ map (\<lambda>h. \<lparr>hanzi = h,
                        meanings = spec_meanings e
                          (select_roots (get_or_empty en h) (get_or_empty ru h) 3)\<rparr>) hs"
proof (induction hs arbitrary: st ds)
  case Nil
  then show ?case by simp
next
  case (Cons h hs)
  let ?roots = "select_roots (get_or_empty en h) (get_or_empty ru h) 3"
  obtain st' ms seen where rl: "roots_loop e ?roots st ([], {}) = (st', ms, seen)"
    by (cases "roots_loop e ?roots st ([], {})") auto
  from roots_loop_spec [OF Cons.prems, of ?roots "[]" "{}"] rl
  have inv': "cache_inv e st'" and ms: "ms = first_occurrences (root_variants e ?roots)"
    by simp_all
  have step: "hanzi_loop e en ru (h # hs) st ds
      = hanzi_loop e en ru hs st' (ds @ [\<lparr>hanzi = h, meanings = ms\<rparr>])"
    by (simp add: rl Let_def)
  show ?case
    unfolding step using Cons.IH [OF inv']
    by (simp add: ms spec_meanings_def root_variants_def)
qed

lemma collect_meanings_run_spec:
  "cache_inv e (fst (collect_meanings_run e hs en ru))"
  "snd (collect_meanings_run e hs en ru) = unmemoized_dataset e hs en ru"
  using hanzi_loop_spec [OF cache_inv_empty, of e en ru hs "[]"]
  by (simp_all add: collect_meanings_run_def unmemoized_dataset_def)


text \<open>
  Claim C1. For every character of the list, the meaning sequence of its entry is the
  first-occurrence deduplication of the concatenated variant sets of its selected
  roots, in root order (each set in its iteration order, a token kept only when the
  same token string is not yet present). A character whose candidate lists are both
  empty gets an entry with the empty meaning sequence.
\<close>

theorem collect_meanings_spec:
  "collect_meanings e hs en ru
     = map (\<lambda>h. \<lparr>hanzi = h,
                  meanings = first_occurrences (concat (map (\<lambda>(w, l). set_iter e (expand e l w))
                     (select_roots (get_or_empty en h) (get_or_empty ru h) 3)))\<rparr>) hs
   \<and> (h \<in> set hs \<and> get_or_empty en h = [] \<and> get_or_empty ru h = []
        \<longrightarrow> \<lparr>hanzi = h, meanings = []\<rparr> \<in> set (collect_meanings e hs en ru))"
proof -
  have eq: "collect_meanings e hs en ru
     = map (\<lambda>h. \<lparr>hanzi = h,
                  meanings = first_occurrences (concat (map (\<lambda>(w, l). set_iter e (expand e l w))
                     (select_roots (get_or_empty en h) (get_or_empty ru h) 3)))\<rparr>) hs"
    by (simp add: collect_meanings_def collect_meanings_run_spec unmemoized_dataset_def
          spec_meanings_def)
  have empty: "select_roots [] [] 3 = []"
    by (simp add: select_roots_def dedupe_preserve_def slice_to_def)
  have "\<lparr>hanzi = h, meanings = []\<rparr> \<in> set (collect_meanings e hs en ru)"
    if "h \<in> set hs" "get_or_empty en h = []" "get_or_empty ru h = []"
    unfolding eq using that by (auto simp: empty image_iff intro!: bexI [of _ h])
  with eq show ?thesis by blast
qed

theorem collect_meanings_spec_witness:
  "[23398] \<in> set [[23398::nat]] \<and> get_or_empty Map.empty [23398] = []
   \<and> \<lparr>hanzi = [23398], meanings = []\<rparr>
        \<in> set (collect_meanings example_env [[23398]] Map.empty Map.empty)"
proof -
  have g: "get_or_empty Map.empty [23398] = []" by (simp add: get_or_empty_def)
  have m: "[23398] \<in> set [[23398::nat]]" by simp
  from collect_meanings_spec [of example_env "[[23398]]" Map.empty Map.empty "[23398]"] g m
  show ?thesis by blast
qed










section \<open>Properties of the chunk files\<close>

declare decimal.simps [simp del]
declare write_lists_from.simps [simp del]

lemma digits_value_snoc: "digits_value (ds @ [c]) = 10 * digits_value ds + (c - 48)"
  by (simp add: digits_value_def)

lemma decimal_small: "n < 10 \<Longrightarrow> decimal n = [48 + n]"
  by (subst decimal.simps) simp

lemma decimal_large: "\<not> n < 10 \<Longrightarrow> decimal n = decimal (n div 10) @ [48 + n mod 10]"
  by (subst decimal.simps) simp

lemma digits_value_decimal: "digits_value (decimal n) = n"
proof (induction n rule: decimal.induct)
  case (1 n)
  show ?case
  proof (cases "n < 10")
    case True
    then show ?thesis by (simp add: decimal_small digits_value_def)
  next
    case False
    then show ?thesis using 1 by (simp add: decimal_large digits_value_snoc)
  qed
qed

lemma digits_value_zeros: "digits_value (replicate k 48 @ ds) = digits_value ds"
proof -
  have "foldl (\<lambda>a c. 10 * a + (c - 48)) 0 (replicate k 48) = (0::nat)"
    by (induction k) simp_all
  then show ?thesis by (simp add: digits_value_def)
qed

lemma decimal_digits: "set (decimal n) \<subseteq> {48..57}"
proof (induction n rule: decimal.induct)
  case (1 n)
  show ?case
  proof (cases "n < 10")
    case True
    then show ?thesis by (simp add: decimal_small)
  next
    case False
    have "48 + n mod 10 \<le> 57"
      using mod_less_divisor [of 10 n] by linarith
    then show ?thesis using 1 False by (simp add: decimal_large)
  qed
qed

lemma decimal_nonempty: "0 < length (decimal n)"
  by (cases "n < 10") (simp_all add: decimal_small decimal_large)

lemma decimal_length: "n < 1000 \<Longrightarrow> length (decimal n) \<le> 3"
proof -
  assume n: "n < 1000"
  show "length (decimal n) \<le> 3"
  proof (cases "n < 10")
    case True then show ?thesis by (simp add: decimal_small)
  next
    case f1: False
    show ?thesis
    proof (cases "n < 100")
      case True
      then have "n div 10 < 10" by simp
      then show ?thesis using f1 by (simp add: decimal_large decimal_small)
    next
      case False
      have a: "n div 10 div 10 < 10" using n by simp
      have b: "\<not> n div 10 < 10" using False by simp
      show ?thesis using f1 a b by (simp add: decimal_large decimal_small)
    qed
  qed
qed

lemma format_03d_props:
  "digits_value (format_03d n) = n"
  "set (format_03d n) \<subseteq> {48..57}"
  "3 \<le> length (format_03d n)"
  "n < 1000 \<Longrightarrow> length (format_03d n) = 3"
proof -
  show "digits_value (format_03d n) = n"
    by (simp add: format_03d_def digits_value_zeros digits_value_decimal)
  show "set (format_03d n) \<subseteq> {48..57}"
    using decimal_digits [of n] by (auto simp: format_03d_def)
  show "3 \<le> length (format_03d n)"
    by (simp add: format_03d_def)
  show "n < 1000 \<Longrightarrow> length (format_03d n) = 3"
    using decimal_length [of n] decimal_nonempty [of n] by (simp add: format_03d_def)
qed

lemma write_lists_from_step:
  "idx < length ds \<Longrightarrow>
     write_lists_from idx ds
       = (list_filename (idx div chunk_size + 1), take chunk_size (drop idx ds))
           # write_lists_from (idx + chunk_size) ds"
  by (subst write_lists_from.simps) simp

lemma write_lists_from_done: "\<not> idx < length ds \<Longrightarrow> write_lists_from idx ds = []"
  by (subst write_lists_from.simps) simp

lemma concat_write_lists_from:
  "concat (map snd (write_lists_from idx ds)) = drop idx ds"
proof (induction idx ds rule: write_lists_from.induct)
  case (1 idx ds)
  show ?case
  proof (cases "idx < length ds")
    case True
    have "take chunk_size (drop idx ds) @ drop chunk_size (drop idx ds) = drop idx ds"
      by (rule append_take_drop_id)
    then have "take chunk_size (drop idx ds) @ drop (idx + chunk_size) ds = drop idx ds"
      by (simp add: add.commute)
    then show ?thesis using True 1 by (simp add: write_lists_from_step)
  next
    case False
    then show ?thesis by (simp add: write_lists_from_done)
  qed
qed

lemma chunk_count_step: "(idx::nat) < n \<Longrightarrow> (n - idx + 99) div 100 = Suc ((n - (idx + 100) + 99) div 100)"
proof (cases "idx + 100 \<le> n")
  case True
  then have "n - idx + 99 = (n - (idx + 100) + 99) + 100" by simp
  then show ?thesis by (simp only: div_add_self2)
next
  case False
  assume "idx < n"
  with False have a: "n - (idx + 100) = 0" and b: "100 \<le> n - idx + 99" and c: "n - idx + 99 < 200"
    by simp_all
  from b c have "(n - idx + 99) div 100 = 1" by simp
  then show ?thesis by (simp add: a)
qed

lemma length_write_lists_from:
  "length (write_lists_from idx ds) = (length ds - idx + 99) div 100"
proof (induction idx ds rule: write_lists_from.induct)
  case (1 idx ds)
  show ?case
  proof (cases "idx < length ds")
    case True
    then have "(length ds - idx + 99) div 100 = Suc ((length ds - (idx + 100) + 99) div 100)"
      by (rule chunk_count_step)
    then show ?thesis using True 1 by (simp add: write_lists_from_step chunk_size_def)
  next
    case False
    then show ?thesis by (simp add: write_lists_from_done)
  qed
qed

lemma nth_write_lists_from:
  "i < length (write_lists_from idx ds) \<Longrightarrow>
     write_lists_from idx ds ! i
       = (list_filename ((idx + 100 * i) div 100 + 1), take 100 (drop (idx + 100 * i) ds))"
proof (induction i arbitrary: idx)
  case 0
  then have "idx < length ds" by (cases "idx < length ds") (simp_all add: write_lists_from_done)
  then show ?case by (simp add: write_lists_from_step chunk_size_def)
next
  case (Suc i)
  from Suc.prems have lt: "idx < length ds"
    by (cases "idx < length ds") (simp_all add: write_lists_from_done)
  note unf = write_lists_from_step [OF lt]
  from Suc.prems unf have "i < length (write_lists_from (idx + chunk_size) ds)" by simp
  from Suc.IH [OF this] have
    "write_lists_from (idx + chunk_size) ds ! i
       = (list_filename ((idx + chunk_size + 100 * i) div 100 + 1),
          take 100 (drop (idx + chunk_size + 100 * i) ds))" .
  moreover have "idx + chunk_size + 100 * i = idx + 100 * Suc i" by (simp add: chunk_size_def)
  ultimately show ?case by (simp add: unf)
qed

lemma map_hanzi_collect: "map hanzi (collect_meanings e hs en ru) = hs"
proof -
  have "map hanzi (unmemoized_dataset e hs en ru) = hs"
    by (induction hs) (simp_all add: unmemoized_dataset_def)
  then show ?thesis by (simp add: collect_meanings_def collect_meanings_run_spec)
qed

lemma list_filename_inj: "list_filename n = list_filename m \<Longrightarrow> n = m"
proof -
  assume "list_filename n = list_filename m"
  then have "format_03d n = format_03d m" by (simp add: list_filename_def)
  then have "digits_value (format_03d n) = digits_value (format_03d m)" by simp
  then show "n = m" by (simp add: format_03d_props(1))
qed

lemma distinct_write_lists: "distinct (map fst (write_lists ds))"
proof -
  have "map fst (write_lists ds) ! i \<noteq> map fst (write_lists ds) ! j"
    if "i < length (write_lists ds)" "j < length (write_lists ds)" "i \<noteq> j" for i j
  proof -
    have "fst (write_lists ds ! i) = list_filename (i + 1)"
      using nth_write_lists_from [of i 0 ds] that(1) by (simp add: write_lists_def)
    moreover have "fst (write_lists ds ! j) = list_filename (j + 1)"
      using nth_write_lists_from [of j 0 ds] that(2) by (simp add: write_lists_def)
    moreover have "list_filename (i + 1) \<noteq> list_filename (j + 1)"
      using list_filename_inj [of "i + 1" "j + 1"] that(3) by auto
    ultimately show ?thesis using that(1,2) by simp
  qed
  then show ?thesis by (simp add: distinct_conv_nth)
qed

text \<open>
  Claim C7. The dataset has one entry per element of the frequency list, in the order
  of the list. The chunk writer makes \<open>\<lceil>length / 100\<rceil>\<close> writes; write number
  \<open>i\<close> (counted from 0) goes to the file numbered \<open>i + 1\<close> and carries the entries
  \<open>100 i, \<dots>, 100 i + 99\<close> of the dataset, so every chunk is non-empty, has at most 100
  entries, and has exactly 100 unless it is the last one; the file names are pairwise
  distinct, and the concatenation of the chunks in the order of their numbers is the
  dataset. The file of number \<open>n\<close> is \<open>list_\<close>, the number, \<open>.json\<close>, where the number
  is written in decimal digits, padded with zeros to three digits (exactly three digits
  for a number below 1000).
\<close>

theorem dataset_chunks:
  "map hanzi (collect_meanings e hs en ru) = hs
   \<and> concat (map snd (write_lists ds)) = ds
   \<and> length (write_lists ds) = (length ds + 99) div 100
   \<and> distinct (map fst (write_lists ds))
   \<and> (\<forall>i < length (write_lists ds).
         write_lists ds ! i = (list_filename (i + 1), take 100 (drop (100 * i) ds))
       \<and> 0 < length (snd (write_lists ds ! i))
       \<and> length (snd (write_lists ds ! i)) \<le> 100
       \<and> (i + 1 < length (write_lists ds) \<longrightarrow> length (snd (write_lists ds ! i)) = 100))
   \<and> list_filename n = u_of ''list_'' @ format_03d n @ u_of ''.json''
   \<and> digits_value (format_03d n) = n
   \<and> set (format_03d n) \<subseteq> {48..57}
   \<and> 3 \<le> length (format_03d n)
   \<and> (n < 1000 \<longrightarrow> length (format_03d n) = 3)"
proof -
  have len: "length (write_lists ds) = (length ds + 99) div 100"
    by (simp add: write_lists_def length_write_lists_from)
  have nth: "write_lists ds ! i = (list_filename (i + 1), take 100 (drop (100 * i) ds))"
    if "i < length (write_lists ds)" for i
    using nth_write_lists_from [of i 0 ds] that by (simp add: write_lists_def)
  have chunk: "0 < length (snd (write_lists ds ! i))
       \<and> length (snd (write_lists ds ! i)) \<le> 100
       \<and> (i + 1 < length (write_lists ds) \<longrightarrow> length (snd (write_lists ds ! i)) = 100)"
    if i: "i < length (write_lists ds)" for i
  proof -
    from i len have "i < (length ds + 99) div 100" by simp
    then have lo: "100 * i < length ds" by arith
    have hi: "100 * i + 100 \<le> length ds" if "i + 1 < length (write_lists ds)"
    proof -
      from that len have "i + 1 < (length ds + 99) div 100" by simp
      then show ?thesis by arith
    qed
    show ?thesis using lo hi by (auto simp: nth [OF i])
  qed
  have cat: "concat (map snd (write_lists ds)) = ds"
    using concat_write_lists_from [of 0 ds] by (simp add: write_lists_def)
  have name: "list_filename n = u_of ''list_'' @ format_03d n @ u_of ''.json''"
    by (simp add: list_filename_def)
  have fmt: "n < 1000 \<longrightarrow> length (format_03d n) = 3"
    using format_03d_props(4) [of n] by blast
  have chunks: "\<forall>i < length (write_lists ds).
         write_lists ds ! i = (list_filename (i + 1), take 100 (drop (100 * i) ds))
       \<and> 0 < length (snd (write_lists ds ! i))
       \<and> length (snd (write_lists ds ! i)) \<le> 100
       \<and> (i + 1 < length (write_lists ds) \<longrightarrow> length (snd (write_lists ds ! i)) = 100)"
    using nth chunk by blast
  from map_hanzi_collect [of e hs en ru] cat len distinct_write_lists [of ds] chunks name
    format_03d_props(1) [of n] format_03d_props(2) [of n] format_03d_props(3) [of n] fmt
  show ?thesis by (intro conjI)
qed


theorem dataset_chunks_witness:
  "(1::nat) < length (write_lists [0..<250])
   \<and> length (write_lists [0..<250]) = 3
   \<and> write_lists [0..<250] ! 1 = (list_filename 2, take 100 (drop 100 [0..<250]))
   \<and> length (snd (write_lists [0..<250] ! 1)) = 100
   \<and> concat (map snd (write_lists [0..<250])) = [0..<250]
   \<and> (2::nat) < 1000 \<and> length (format_03d 2) = 3 \<and> digits_value (format_03d 2) = 2"
proof -
  note t = dataset_chunks [of example_env "[]" Map.empty Map.empty "[0..<250]" 2]
  have l250: "length [0..<250::nat] = 250" by simp
  from t have "length (write_lists [0..<250]) = (length [0..<250::nat] + 99) div 100" by blast
  then have len: "length (write_lists [0..<250]) = 3" unfolding l250 by simp
  have one: "(1::nat) < length (write_lists [0..<250])"
    and two: "(1::nat) + 1 < length (write_lists [0..<250])" unfolding len by simp_all
  from t have "\<forall>i < length (write_lists [0..<250]).
         write_lists [0..<250] ! i = (list_filename (i + 1), take 100 (drop (100 * i) [0..<250]))
       \<and> 0 < length (snd (write_lists [0..<250] ! i))
       \<and> length (snd (write_lists [0..<250] ! i)) \<le> 100
       \<and> (i + 1 < length (write_lists [0..<250]) \<longrightarrow> length (snd (write_lists [0..<250] ! i)) = 100)"
    by blast
  with one two have c: "write_lists [0..<250] ! 1 = (list_filename (1 + 1), take 100 (drop (100 * 1) [0..<250]))"
    and d: "length (snd (write_lists [0..<250] ! 1)) = 100" by blast+
  have e1: "(1::nat) + 1 = 2" and e2: "100 * (1::nat) = 100" by simp_all
  from c have c': "write_lists [0..<250] ! 1 = (list_filename 2, take 100 (drop 100 [0..<250]))"
    unfolding e1 e2 .
  from t have cat: "concat (map snd (write_lists [0..<250])) = [0..<250]"
    and f: "(2::nat) < 1000 \<longrightarrow> length (format_03d 2) = 3"
    and g: "digits_value (format_03d 2) = 2" by blast+
  have lt: "(2::nat) < 1000" by simp
  with f have f': "length (format_03d 2) = 3" by blast
  from one len c' d cat lt f' g show ?thesis by blast
qed

section \<open>Properties of the expansion\<close>

lemma fold_forms:
  "fold (\<lambda>forms acc. acc \<union> set forms) fss acc = acc \<union> \<Union> (set ` set fss)"
  by (induction fss arbitrary: acc) auto

lemma fold_inflections:
  "fold (\<lambda>lemma inflections.
           fold (\<lambda>forms acc. acc \<union> set forms)
                (map snd (getAllInflections e lemma))
                (insert lemma inflections)) ls acc
     = acc \<union> (\<Union>l\<in>set ls. insert l (inflections_of e l))"
  by (induction ls arbitrary: acc) (auto simp: fold_forms inflections_of_def)

lemma fold_variants:
  "fold (\<lambda>lemma variants. variants \<union> F lemma) ls acc = acc \<union> (\<Union>l\<in>set ls. F l)"
  by (induction ls arbitrary: acc) auto

lemma lemmatize_variants_eq:
  "lemmatize_variants e w =
     (case nltk e of
        None \<Rightarrow> {w}
      | Some lib \<Rightarrow>
          if wordnet_found lib
          then insert w ({wn_lemmatize lib w Noun, wn_lemmatize lib w Verb,
                          wn_lemmatize lib w Adj, wn_lemmatize lib w Adv} - {[]})
          else {w})"
  by (auto simp: lemmatize_variants_def wordnet_available_def Let_def split: option.splits)

lemma lemmatize_variants_mem: "w \<in> lemmatize_variants e w"
  by (simp add: lemmatize_variants_eq split: option.splits)

lemma finite_lemmatize_variants: "finite (lemmatize_variants e w)"
  by (simp add: lemmatize_variants_eq split: option.splits)


lemma generate_inflections_iter:
  "generate_inflections e w
     = (\<Union>l\<in>set (set_iter e (lemmatize_variants e w)). insert l (inflections_of e l))"
  by (simp add: generate_inflections_def fold_inflections)

lemma finite_inflections_of: "finite (inflections_of e l)"
  by (simp add: inflections_of_def)

lemma finite_generate_inflections: "finite (generate_inflections e w)"
  by (simp add: generate_inflections_iter finite_inflections_of)

lemma generate_inflections_eq:
  "iter_ok e \<Longrightarrow>
     generate_inflections e w = (\<Union>l\<in>lemmatize_variants e w. insert l (inflections_of e l))"
  using finite_lemmatize_variants [of e w]
  by (simp add: generate_inflections_iter iter_ok_def)

lemma finite_spec_tokens: "finite (spec_tokens l d f)"
  by (simp add: spec_tokens_def)

lemma finite_encode: "finite (encode_suffix_variants l fs d)"
  by (simp add: encode_as_union finite_spec_tokens)

lemma expand_english_word_iter:
  "expand_english_word e w
     = (\<Union>l\<in>set (set_iter e (lemmatize_variants e w)).
          encode_suffix_variants l (set_iter e (generate_inflections e l)) True)"
  by (simp add: expand_english_word_def Let_def fold_variants)

lemma finite_expand_english_word: "finite (expand_english_word e w)"
  by (simp add: expand_english_word_iter finite_encode)

lemma expand_english_word_eq:
  "iter_ok e \<Longrightarrow>
     expand_english_word e w
       = (\<Union>l\<in>lemmatize_variants e w. \<Union>f\<in>generate_inflections e l. spec_tokens l True f)"
  using finite_lemmatize_variants [of e w] finite_generate_inflections [of e]
  by (simp add: expand_english_word_iter encode_as_union iter_ok_def)

lemma spec_tokens_self: "spec_tokens l d l = {l}"
  by (simp add: spec_tokens_def)

lemma generate_inflections_self: "iter_ok e \<Longrightarrow> l \<in> generate_inflections e l"
  using lemmatize_variants_mem [of l e] by (auto simp: generate_inflections_eq)

lemma expand_english_word_mem: "iter_ok e \<Longrightarrow> w \<in> expand_english_word e w"
proof -
  assume ok: "iter_ok e"
  have "w \<in> spec_tokens w True w" by (simp add: spec_tokens_self)
  then show ?thesis
    unfolding expand_english_word_eq [OF ok]
    using lemmatize_variants_mem [of w e] generate_inflections_self [OF ok, of w] by blast
qed

lemma fold_lexeme:
  "fold (\<lambda>w acc. if w \<noteq> [] then insert w acc else acc) ws acc = acc \<union> (set ws - {[]})"
  by (induction ws arbitrary: acc) auto

lemma generate_lexeme_forms_eq:
  "generate_lexeme_forms e w =
     (case morph_parse e w of
        [] \<Rightarrow> (w, {w})
      | best # rest \<Rightarrow>
          (if normal_form best \<noteq> [] then normal_form best else w,
           insert (if normal_form best \<noteq> [] then normal_form best else w)
                  (set (lexeme best) - {[]})))"
  by (simp add: generate_lexeme_forms_def fold_lexeme Let_def split: list.splits)

lemma generate_lexeme_forms_props:
  "fst (generate_lexeme_forms e w) \<in> snd (generate_lexeme_forms e w)"
  "finite (snd (generate_lexeme_forms e w))"
  by (simp_all add: generate_lexeme_forms_eq split: list.splits)

lemma expand_russian_word_eq:
  "iter_ok e \<Longrightarrow>
     expand_russian_word e w
       = (\<Union>f\<in>snd (generate_lexeme_forms e w). spec_tokens (fst (generate_lexeme_forms e w)) True f)"
  using generate_lexeme_forms_props(2) [of e w]
  by (simp add: expand_russian_word_def case_prod_beta encode_as_union iter_ok_def)

lemma finite_expand_russian_word: "finite (expand_russian_word e w)"
  by (simp add: expand_russian_word_def case_prod_beta finite_encode)

lemma expand_russian_word_mem:
  "iter_ok e \<Longrightarrow> fst (generate_lexeme_forms e w) \<in> expand_russian_word e w"
proof -
  assume ok: "iter_ok e"
  have "fst (generate_lexeme_forms e w) \<in> spec_tokens (fst (generate_lexeme_forms e w)) True (fst (generate_lexeme_forms e w))"
    by (simp add: spec_tokens_self)
  then show ?thesis
    unfolding expand_russian_word_eq [OF ok]
    using generate_lexeme_forms_props(1) [of e w] by blast
qed

lemma finite_expand: "finite (expand e l w)"
  by (cases l) (simp_all add: expand_def finite_expand_english_word finite_expand_russian_word)

lemma expand_nonempty: "iter_ok e \<Longrightarrow> expand e l w \<noteq> {}"
  using expand_english_word_mem [of e w] expand_russian_word_mem [of e w]
  by (cases l) (auto simp: expand_def)

lemma iter_ok_example: "iter_ok example_env"
  by (simp add: iter_ok_def example_env_def)








lemma collect_meanings_nth:
  "i < length hs \<Longrightarrow>
     collect_meanings e hs en ru ! i
       = \<lparr>hanzi = hs ! i,
          meanings = first_occurrences (root_variants e
             (select_roots (get_or_empty en (hs ! i)) (get_or_empty ru (hs ! i)) 3))\<rparr>"
  by (simp add: collect_meanings_def collect_meanings_run_spec unmemoized_dataset_def
        spec_meanings_def root_variants_def)

lemma root_variants_nonempty:
  assumes "iter_ok e" and "roots \<noteq> []"
  shows "root_variants e roots \<noteq> []"
proof -
  from assms(2) obtain w l rest where r: "roots = (w, l) # rest"
    by (cases roots) auto
  have "set (set_iter e (expand e l w)) = expand e l w"
    using assms(1) finite_expand [of e l w] by (simp add: iter_ok_def)
  then have "set_iter e (expand e l w) \<noteq> []"
    using expand_nonempty [OF assms(1), of l w] by auto
  then show ?thesis by (simp add: root_variants_def r)
qed

lemma first_occurrences_nonempty: "xs \<noteq> [] \<Longrightarrow> first_occurrences xs \<noteq> []"
  by (cases xs) simp_all

text \<open>
  Claim C9. In an environment in which iterating a set visits its elements, every
  expansion is non-empty. A word is a member of its own lemma set, the inflection set
  of a lemma contains the lemma, and a form equal to its lemma is encoded as the bare
  lemma; so the English expansion of a word contains the word. The Russian expansion
  contains the lemma that \<open>generate_lexeme_forms\<close> returns: the normal form of the
  first parse, or the word itself when that is empty or there is no parse. Hence the
  entry of every listed character with at least one selected root has a non-empty
  meaning sequence.
\<close>

theorem expansion_nonempty:
  assumes "iter_ok e"
  shows "w \<in> lemmatize_variants e w
   \<and> l \<in> generate_inflections e l
   \<and> (l \<in> set fs \<longrightarrow> l \<in> encode_suffix_variants l fs d)
   \<and> w \<in> expand_english_word e w
   \<and> fst (generate_lexeme_forms e w)
       = (case morph_parse e w of
            [] \<Rightarrow> w
          | best # rest \<Rightarrow> if normal_form best \<noteq> [] then normal_form best else w)
   \<and> fst (generate_lexeme_forms e w) \<in> expand_russian_word e w
   \<and> expand e lg w \<noteq> {}
   \<and> (\<forall>i<length hs.
         select_roots (get_or_empty en (hs ! i)) (get_or_empty ru (hs ! i)) 3 \<noteq> []
         \<longrightarrow> hanzi (collect_meanings e hs en ru ! i) = hs ! i
           \<and> meanings (collect_meanings e hs en ru ! i) \<noteq> [])"
proof -
  have a: "w \<in> lemmatize_variants e w" by (rule lemmatize_variants_mem)
  have b: "l \<in> generate_inflections e l" using assms by (rule generate_inflections_self)
  have c: "l \<in> set fs \<longrightarrow> l \<in> encode_suffix_variants l fs d"
    using spec_tokens_self [of l d] by (auto simp: encode_as_union)
  have d: "w \<in> expand_english_word e w" using assms by (rule expand_english_word_mem)
  have f: "fst (generate_lexeme_forms e w)
       = (case morph_parse e w of
            [] \<Rightarrow> w
          | best # rest \<Rightarrow> if normal_form best \<noteq> [] then normal_form best else w)"
    by (simp add: generate_lexeme_forms_eq split: list.splits)
  have g: "fst (generate_lexeme_forms e w) \<in> expand_russian_word e w"
    using assms by (rule expand_russian_word_mem)
  have h: "expand e lg w \<noteq> {}" using assms by (rule expand_nonempty)
  have i: "\<forall>i<length hs.
         select_roots (get_or_empty en (hs ! i)) (get_or_empty ru (hs ! i)) 3 \<noteq> []
         \<longrightarrow> hanzi (collect_meanings e hs en ru ! i) = hs ! i
           \<and> meanings (collect_meanings e hs en ru ! i) \<noteq> []"
  proof (intro allI impI)
    fix i
    assume i: "i < length hs"
      and r: "select_roots (get_or_empty en (hs ! i)) (get_or_empty ru (hs ! i)) 3 \<noteq> []"
    from root_variants_nonempty [OF assms r]
    have "first_occurrences (root_variants e
             (select_roots (get_or_empty en (hs ! i)) (get_or_empty ru (hs ! i)) 3)) \<noteq> []"
      by (rule first_occurrences_nonempty)
    then show "hanzi (collect_meanings e hs en ru ! i) = hs ! i
           \<and> meanings (collect_meanings e hs en ru ! i) \<noteq> []"
      by (simp add: collect_meanings_nth [OF i])
  qed
  from a b c d f g h i show ?thesis by blast
qed

theorem expansion_nonempty_witness:
  "iter_ok example_env
   \<and> u_of ''learn'' \<in> set [u_of ''learning'', u_of ''learn'']
   \<and> u_of ''learn'' \<in> encode_suffix_variants (u_of ''learn'') [u_of ''learning'', u_of ''learn''] True
   \<and> u_of ''learn'' \<in> expand_english_word example_env (u_of ''learn'')
   \<and> expand example_env RU (u_of ''learn'') \<noteq> {}
   \<and> (0::nat) < length [[23398::nat]]
   \<and> select_roots (get_or_empty [[23398] \<mapsto> [u_of ''learn'']] ([[23398]] ! 0))
        (get_or_empty Map.empty ([[23398]] ! 0)) 3 \<noteq> []
   \<and> meanings (collect_meanings example_env [[23398]] [[23398] \<mapsto> [u_of ''learn'']] Map.empty ! 0)
       \<noteq> []"
proof -
  have ok: "iter_ok example_env" by (rule iter_ok_example)
  have m: "u_of ''learn'' \<in> set [u_of ''learning'', u_of ''learn'']" by simp
  have z: "(0::nat) < length [[23398::nat]]" by simp
  have r: "select_roots (get_or_empty [[23398] \<mapsto> [u_of ''learn'']] ([[23398]] ! 0))
        (get_or_empty Map.empty ([[23398]] ! 0)) 3 \<noteq> []"
    by (simp add: get_or_empty_def select_roots_def dedupe_preserve_def slice_to_def)
  note t = expansion_nonempty [OF ok, of "u_of ''learn''" "u_of ''learn''"
      "[u_of ''learning'', u_of ''learn'']" True RU "[[23398]]"
      "[[23398] \<mapsto> [u_of ''learn'']]" Map.empty]
  from t m have e1: "u_of ''learn'' \<in> encode_suffix_variants (u_of ''learn'') [u_of ''learning'', u_of ''learn''] True"
    by blast
  from t have e2: "u_of ''learn'' \<in> expand_english_word example_env (u_of ''learn'')"
    and e3: "expand example_env RU (u_of ''learn'') \<noteq> {}" by blast+
  from t z r have e4: "meanings (collect_meanings example_env [[23398]] [[23398] \<mapsto> [u_of ''learn'']] Map.empty ! 0)
       \<noteq> []" by blast
  from ok m e1 e2 e3 z r e4 show ?thesis by blast
qed

section \<open>Properties of the candidate extraction\<close>


lemma strip_other: "c \<noteq> opn \<Longrightarrow> strip_segments opn cls (c # cs) = c # strip_segments opn cls cs"
  by simp


















end
